theory Spec2Isabelle
  imports Complex_Main "HOL-Library.Sublist" "HOL-Library.AList"
begin

section \<open>Strings\<close>



text \<open>\<open>String.prototype.includes\<close>: the pattern occurs at some position.\<close>

fun str_includes :: "string \<Rightarrow> string \<Rightarrow> bool" where
  "str_includes [] pat = (pat = [])"
| "str_includes (c # cs) pat = (prefix pat (c # cs) \<or> str_includes cs pat)"

text \<open>
  \<open>String.prototype.replace\<close> with a string pattern: only the first occurrence of the
  pattern is replaced.
\<close>

fun str_replace :: "string \<Rightarrow> string \<Rightarrow> string \<Rightarrow> string" where
  "str_replace [] pat rep = (if pat = [] then rep else [])"
| "str_replace (c # cs) pat rep =
     (if prefix pat (c # cs) then rep @ drop (length pat) (c # cs)
      else c # str_replace cs pat rep)"

text \<open>
  \<open>String.prototype.split\<close> with the regular expression \<open>/\s+/\<close>: the string is cut at
  every maximal run of white space; a leading or trailing run leaves an empty piece.
  \<open>cur\<close> is the piece being read (reversed), \<open>inws\<close> says that the previous unit was
  white space.
\<close>

definition is_space :: "char \<Rightarrow> bool" where
  "is_space c \<longleftrightarrow> c \<in> set [CHR '' '', CHR 0x09, CHR 0x0A, CHR 0x0B, CHR 0x0C, CHR 0x0D, CHR 0xA0]"

fun split_ws_from :: "string \<Rightarrow> bool \<Rightarrow> string \<Rightarrow> string list" where
  "split_ws_from cur inws [] = [rev cur]"
| "split_ws_from cur inws (c # cs) =
     (if is_space c then
        (if inws then split_ws_from [] True cs else rev cur # split_ws_from [] True cs)
      else split_ws_from (c # cur) False cs)"

definition split_ws :: "string \<Rightarrow> string list" where
  "split_ws s = split_ws_from [] False s"


section \<open>AIAssistant\<close>

subsection \<open>getStaticResponse\<close>







subsection \<open>The transcript and the error effect\<close>

datatype role = User | AI

record message =
  role :: role
  msg_text :: string

text \<open>
  The component's \<open>messages\<close> state and its \<open>errorAcknowledged\<close> ref. The input box and
  the pending flag of the submit handler take no part in the error effect.
\<close>

record assistant =
  messages :: "message list"
  errorAcknowledged :: "string option"

definition greeting :: message where
  "greeting = \<lparr>role = AI,
     msg_text = ''System Guide active. I can assist with your document conversion parameters.''\<rparr>"

definition initial_assistant :: assistant where
  "initial_assistant = \<lparr>messages = [greeting], errorAcknowledged = None\<rparr>"

definition alert_text :: "string \<Rightarrow> string" where
  "alert_text errorState =
     ''SYSTEM_ALERT: Detected an extraction anomaly. Status: '' @ [CHR 0x22] @ errorState
       @ [CHR 0x22] @ ''.'' @ [CHR 0x0A, CHR 0x0A] @ ''Suggested Protocol:'' @ [CHR 0x0A]
       @ ''1. Check document integrity.'' @ [CHR 0x0A]
       @ ''2. Verify format compatibility.'' @ [CHR 0x0A]
       @ ''3. Retry the operation.''"

definition alert_message :: "string \<Rightarrow> message" where
  "alert_message errorState = \<lparr>role = AI, msg_text = alert_text errorState\<rparr>"

text \<open>
  The body of the effect on \<open>errorState\<close>. React runs it after the first render and after
  every render in which the prop has changed. The prop is \<open>None\<close> for \<open>null\<close> and
  \<open>undefined\<close>; the empty string is falsy as well.
\<close>

definition errorEffect :: "string option \<Rightarrow> assistant \<Rightarrow> assistant" where
  "errorEffect errorState a =
     (case errorState of
        None \<Rightarrow> a
      | Some e \<Rightarrow>
          if e \<noteq> [] \<and> Some e \<noteq> errorAcknowledged a
          then a\<lparr>errorAcknowledged := Some e, messages := messages a @ [alert_message e]\<rparr>
          else a)"

text \<open>The values of a delivery sequence that can be surfaced: neither null nor empty.\<close>

fun surfacable :: "string option list \<Rightarrow> string list" where
  "surfacable [] = []"
| "surfacable (None # ds) = surfacable ds"
| "surfacable (Some v # ds) = (if v = [] then surfacable ds else v # surfacable ds)"

text \<open>The number of alerts for one value in a transcript.\<close>

definition alerts_for :: "string \<Rightarrow> assistant \<Rightarrow> nat" where
  "alerts_for v a = length (filter (\<lambda>m. m = alert_message v) (messages a))"


section \<open>WebConverter\<close>

subsection \<open>Data\<close>

datatype format = Excel | Word

text \<open>The uploaded \<open>File\<close>: the component reads its name; \<open>content\<close> is its bytes.\<close>

record js_file =
  name :: string
  content :: "nat list"

record error_info =
  message :: string
  detail :: "string option"

text \<open>
  The objects handed to the spreadsheet library: a worksheet built from an array of rows
  with its \<open>!cols\<close> entry (one \<open>wch\<close> width per column), and a workbook as its named
  sheets in order.
\<close>

record worksheet =
  cells :: "string list list"
  cols :: "nat list option"

record workbook =
  sheets :: "(string \<times> worksheet) list"

definition aoa_to_sheet :: "string list list \<Rightarrow> worksheet" where
  "aoa_to_sheet rows = \<lparr>cells = rows, cols = None\<rparr>"

definition book_new :: workbook where
  "book_new = \<lparr>sheets = []\<rparr>"

definition book_append_sheet :: "workbook \<Rightarrow> worksheet \<Rightarrow> string \<Rightarrow> workbook" where
  "book_append_sheet wb ws nm = wb\<lparr>sheets := sheets wb @ [(nm, ws)]\<rparr>"

text \<open>
  A \<open>Blob\<close> is its parts and its type. The bytes that \<open>XLSX.write\<close> returns for a
  workbook are the library's; the part records the workbook written as \<open>xlsx\<close>.
\<close>

datatype blob_part = XlsxArray workbook | TextPart string

record js_blob =
  parts :: "blob_part list"
  blob_type :: string

text \<open>
  A running interval timer is its callback's closure: the progress callback holds
  \<open>prog\<close>, the selected file and the \<open>format\<close> of the render that started the run;
  the telemetry callback holds \<open>telIdx\<close>.
\<close>

datatype callback = ProgressTick rat js_file format | TelemetryTick nat

text \<open>
  The component with its surroundings: the props (\<open>format\<close>, and whether
  \<open>onErrorUpdate\<close> is supplied), the state variables, the two timer refs, the
  browser's active interval timers with the next handle, the downloads triggered
  (file name and blob) and the values passed to \<open>onErrorUpdate\<close>.
\<close>

record panel =
  format :: format
  onErrorUpdate :: bool
  file' :: "js_file option"
  loading :: bool
  downloadReady :: bool
  error :: "error_info option"
  statusMessage :: string
  telemetry :: string
  simProgress :: rat
  resultBlob :: "js_blob option"
  progressTimer :: "nat option"
  telemetryTimer :: "nat option"
  intervals :: "(nat \<times> callback) list"
  nextHandle :: nat
  downloads :: "(string \<times> js_blob) list"
  errorUpdates :: "string option list"

definition telemetryLabels :: "string list" where
  "telemetryLabels =
     [''LOCAL_BUFFER_SCANNING'', ''PARSING_FILE_HEADER'', ''RECONSTRUCTING_SCHEMA'',
      ''OPTIMIZING_DELIMITERS'', ''STRIPPING_INTERACTIVE_LAYERS'', ''SERIALIZING_OUTPUT_BUFFER'']"

definition initial_panel :: "format \<Rightarrow> bool \<Rightarrow> panel" where
  "initial_panel fmt cb =
     \<lparr>format = fmt, onErrorUpdate = cb, file' = None, loading = False, downloadReady = False,
      error = None, statusMessage = [], telemetry = ''SYSTEM_IDLE'', simProgress = 0,
      resultBlob = None, progressTimer = None, telemetryTimer = None, intervals = [],
      nextHandle = 1, downloads = [], errorUpdates = []\<rparr>"

subsection \<open>Browser and host\<close>

definition setInterval :: "callback \<Rightarrow> panel \<Rightarrow> nat \<times> panel" where
  "setInterval cb w =
     (nextHandle w,
      w\<lparr>intervals := intervals w @ [(nextHandle w, cb)], nextHandle := Suc (nextHandle w)\<rparr>)"

definition clearInterval :: "nat \<Rightarrow> panel \<Rightarrow> panel" where
  "clearInterval h w = w\<lparr>intervals := filter (\<lambda>(i, cb). i \<noteq> h) (intervals w)\<rparr>"

text \<open>\<open>if (onErrorUpdate) onErrorUpdate(v)\<close>\<close>

definition notifyError :: "string option \<Rightarrow> panel \<Rightarrow> panel" where
  "notifyError v w = (if onErrorUpdate w then w\<lparr>errorUpdates := errorUpdates w @ [v]\<rparr> else w)"

text \<open>
  Modelled from the spec: the host view, which is not among the sources, holds the shared
  format selection; \<open>setFormat\<close> stores the choice and the host passes it back as the
  \<open>format\<close> prop.
\<close>

definition setFormat :: "format \<Rightarrow> panel \<Rightarrow> panel" where
  "setFormat f w = w\<lparr>format := f\<rparr>"

subsection \<open>Handlers\<close>

definition cleanupTimers :: "panel \<Rightarrow> panel" where
  "cleanupTimers w =
     (let w1 = (case progressTimer w of Some h \<Rightarrow> clearInterval h w | None \<Rightarrow> w)
      in case telemetryTimer w1 of Some h \<Rightarrow> clearInterval h w1 | None \<Rightarrow> w1)"

definition extension :: "format \<Rightarrow> string" where
  "extension fmt = (if fmt = Excel then ''xlsx'' else ''txt'')"

definition downloadName :: "format \<Rightarrow> string \<Rightarrow> string" where
  "downloadName fmt originalName =
     str_replace originalName ''.pdf'' [] @ ''_v42.'' @ extension fmt"

text \<open>\<open>fmt\<close> is the \<open>format\<close> of the render whose \<open>triggerDownload\<close> is called.\<close>

definition triggerDownload :: "format \<Rightarrow> js_blob \<Rightarrow> string \<Rightarrow> panel \<Rightarrow> panel" where
  "triggerDownload fmt blob originalName w =
     w\<lparr>downloads := downloads w @ [(downloadName fmt originalName, blob)]\<rparr>"

definition fallback_message :: string where
  "fallback_message = ''System status: Cloud engine offline. Local word extraction active.''"

definition fallback_words :: "string list" where
  "fallback_words = filter (\<lambda>w. length w > 0) (split_ws fallback_message)"

definition xlsx_mime :: string where
  "xlsx_mime = ''application/vnd.openxmlformats-officedocument.spreadsheetml.sheet''"

text \<open>
  The blob that \<open>finishConversion\<close> builds; \<open>timestamp\<close> is what
  \<open>new Date().toLocaleString()\<close> returns at that moment.
\<close>

definition makeBlob :: "format \<Rightarrow> js_file \<Rightarrow> string \<Rightarrow> js_blob" where
  "makeBlob fmt selectedFile timestamp =
     (if fmt = Excel then
        (let words = fallback_words;
             ws = aoa_to_sheet [words];
             colWidths = map (\<lambda>word. length word + 2) words;
             ws = ws\<lparr>cols := Some colWidths\<rparr>;
             wb = book_append_sheet book_new ws ''Word Grid''
         in \<lparr>parts = [XlsxArray wb], blob_type = xlsx_mime\<rparr>)
      else
        (let content = ''LOCAL_EXTRACTION_REPORT'' @ [CHR 0x0A] @ ''Source: ''
               @ name selectedFile @ [CHR 0x0A] @ ''Status: Gemini AI Removed'' @ [CHR 0x0A]
               @ ''Timestamp: '' @ timestamp
         in \<lparr>parts = [TextPart content], blob_type = ''text/plain''\<rparr>))"

definition finishConversion :: "format \<Rightarrow> js_file \<Rightarrow> string \<Rightarrow> panel \<Rightarrow> panel" where
  "finishConversion fmt selectedFile timestamp w =
     (let w1 = cleanupTimers w;
          w2 = w1\<lparr>statusMessage := ''ASSEMBLING_PAYLOAD''\<rparr>;
          blob = makeBlob fmt selectedFile timestamp;
          w3 = w2\<lparr>resultBlob := Some blob, downloadReady := True, loading := False,
                  statusMessage := ''EXTRACTION_SUCCESS''\<rparr>
      in triggerDownload fmt blob (name selectedFile) w3)"

definition startConversion :: "js_file \<Rightarrow> panel \<Rightarrow> panel" where
  "startConversion selectedFile w =
     (let w1 = notifyError None (w\<lparr>loading := True, error := None\<rparr>);
          w2 = w1\<lparr>downloadReady := False, statusMessage := ''UPLOADING_STREAM''\<rparr>;
          (h1, w3) = setInterval (ProgressTick 0 selectedFile (format w2)) w2;
          w4 = w3\<lparr>progressTimer := Some h1\<rparr>;
          (h2, w5) = setInterval (TelemetryTick 0) w4
      in w5\<lparr>telemetryTimer := Some h2\<rparr>)"

text \<open>\<open>files\<close> is \<open>e.target.files\<close>, empty when it is null or has no first entry.\<close>

definition handleFileChange :: "js_file list \<Rightarrow> panel \<Rightarrow> panel" where
  "handleFileChange files w =
     (case files of
        [] \<Rightarrow> w
      | selectedFile # rest \<Rightarrow>
          (let w1 = notifyError None
                      (w\<lparr>file' := Some selectedFile, downloadReady := False, error := None\<rparr>);
               w2 = w1\<lparr>statusMessage := [], resultBlob := None, simProgress := 0\<rparr>
           in startConversion selectedFile w2))"

text \<open>
  Numbers are modelled as rationals, so the steps 4.5, 1.2 and 0.5 are exact. A run always
  counts from 0, and on that one trajectory the exact counter stays at least 0.1 away from
  the thresholds 40, 85 and 100 (\<open>trajectory_clear_of_thresholds\<close> below), so the
  rounding of binary floating point over 75 additions takes the same branches.
\<close>

definition increment :: "rat \<Rightarrow> rat" where
  "increment prog = (if prog < 40 then 4.5 else if prog < 85 then 1.2 else 0.5)"

text \<open>
  The interval with handle \<open>h\<close> fires at a moment whose local time string is \<open>now\<close>.
  A handle that is not active (never set, or cleared) runs nothing.
\<close>

definition fireInterval :: "nat \<Rightarrow> string \<Rightarrow> panel \<Rightarrow> panel" where
  "fireInterval h now w =
     (case map_of (intervals w) h of
        None \<Rightarrow> w
      | Some (ProgressTick prog selectedFile fmt) \<Rightarrow>
          (let prog' = prog + increment prog;
               w1 = w\<lparr>intervals :=
                        AList.update h (ProgressTick prog' selectedFile fmt) (intervals w),
                      simProgress := min prog' 100\<rparr>
           in if prog' \<ge> 100 then finishConversion fmt selectedFile now w1 else w1)
      | Some (TelemetryTick telIdx) \<Rightarrow>
          w\<lparr>telemetry := telemetryLabels ! (telIdx mod length telemetryLabels),
            intervals := AList.update h (TelemetryTick (Suc telIdx)) (intervals w)\<rparr>)"

definition resetTask :: "panel \<Rightarrow> panel" where
  "resetTask w =
     notifyError None
       (w\<lparr>file' := None, downloadReady := False, resultBlob := None, statusMessage := [],
          simProgress := 0, telemetry := ''SYSTEM_IDLE'', error := None\<rparr>)"

subsection \<open>The rendered view\<close>

text \<open>
  What can happen to the mounted component: an event of an element the current render
  shows, or an interval firing. The file input is rendered when the task is neither
  loading nor ready; the two format buttons are disabled while loading; RE-DOWNLOAD and
  NEW_TASK are rendered when the task is ready and not loading; Force_Reboot and Dismiss
  are rendered in the error overlay. An event of an element that is not rendered, or of
  a disabled button, reaches no handler.
\<close>

datatype ui_event =
    FileInputChange "js_file list"
  | ClickXLSX
  | ClickTEXT
  | ClickReDownload
  | ClickNewTask
  | ClickForceReboot
  | ClickDismiss
  | IntervalFires nat string

definition ui_step :: "panel \<Rightarrow> ui_event \<Rightarrow> panel" where
  "ui_step w e =
     (case e of
        FileInputChange files \<Rightarrow>
          if \<not> loading w \<and> \<not> downloadReady w then handleFileChange files w else w
      | ClickXLSX \<Rightarrow> if loading w then w else setFormat Excel w
      | ClickTEXT \<Rightarrow> if loading w then w else setFormat Word w
      | ClickReDownload \<Rightarrow>
          if \<not> (\<not> loading w \<and> \<not> downloadReady w) \<and> \<not> loading w then
            (case (resultBlob w, file' w) of
               (Some blob, Some f) \<Rightarrow> triggerDownload (format w) blob (name f) w
             | _ \<Rightarrow> w)
          else w
      | ClickNewTask \<Rightarrow>
          if \<not> (\<not> loading w \<and> \<not> downloadReady w) \<and> \<not> loading w then resetTask w else w
      | ClickForceReboot \<Rightarrow> if error w \<noteq> None then resetTask w else w
      | ClickDismiss \<Rightarrow> if error w \<noteq> None then w\<lparr>error := None\<rparr> else w
      | IntervalFires h now \<Rightarrow> fireInterval h now w)"

definition run :: "panel \<Rightarrow> ui_event list \<Rightarrow> panel" where
  "run w es = foldl ui_step w es"

text \<open>The two kinds of event that can come while a run is under way.\<close>

fun is_file_input :: "ui_event \<Rightarrow> bool" where
  "is_file_input (FileInputChange files) = True"
| "is_file_input e = False"

fun is_interval :: "ui_event \<Rightarrow> bool" where
  "is_interval (IntervalFires h now) = True"
| "is_interval e = False"

subsection \<open>Concrete files and runs\<close>

definition report_pdf :: js_file where
  "report_pdf = \<lparr>name = ''report.pdf'', content = [37, 80, 68, 70, 45, 49]\<rparr>"

definition other_pdf :: js_file where
  "other_pdf = \<lparr>name = ''report.pdf'', content = [37, 80, 68, 70, 45, 50, 10]\<rparr>"

definition invoice_pdf :: js_file where
  "invoice_pdf = \<lparr>name = ''invoice.pdf'', content = [37, 80, 68, 70]\<rparr>"

text \<open>A run under way: a file was chosen in the fresh component and one progress tick came.\<close>

definition midrun :: panel where
  "midrun = run (initial_panel Excel True)
     [FileInputChange [report_pdf], IntervalFires 1 ''1/1/2026, 10:00:00 AM'']"


subsection \<open>States of a task\<close>

text \<open>
  A task under way: loading, with exactly the two intervals of the refs active, and the
  progress callback's counter equal to the displayed progress, below 100.
\<close>

definition running :: "panel \<Rightarrow> bool" where
  "running w \<longleftrightarrow>
     loading w \<and> \<not> downloadReady w \<and> 0 \<le> simProgress w \<and> simProgress w < 100 \<and>
     (\<exists>h1 h2 f fmt n.
        h1 \<noteq> h2 \<and> progressTimer w = Some h1 \<and> telemetryTimer w = Some h2 \<and>
        file' w = Some f \<and>
        intervals w = [(h1, ProgressTick (simProgress w) f fmt), (h2, TelemetryTick n)])"

text \<open>
  A task at rest, with no interval active: idle (progress 0), or succeeded (progress 100)
  with the blob built for the chosen file under some format at some moment.
\<close>

definition settled :: "panel \<Rightarrow> bool" where
  "settled w \<longleftrightarrow>
     \<not> loading w \<and> intervals w = [] \<and>
     (if downloadReady w
      then simProgress w = 100 \<and>
           (\<exists>fmt0 f ts. resultBlob w = Some (makeBlob fmt0 f ts) \<and> file' w = Some f)
      else simProgress w = 0)"

definition panel_inv :: "panel \<Rightarrow> bool" where
  "panel_inv w \<longleftrightarrow> error w = None \<and> (running w \<or> settled w)"


subsection \<open>Notions of the specification\<close>

text \<open>The Idle defaults of the task fields.\<close>

definition is_idle :: "panel \<Rightarrow> bool" where
  "is_idle w \<longleftrightarrow>
     file' w = None \<and> \<not> loading w \<and> \<not> downloadReady w \<and> resultBlob w = None \<and>
     statusMessage w = [] \<and> telemetry w = ''SYSTEM_IDLE'' \<and> simProgress w = 0 \<and>
     error w = None"

text \<open>
  The file name in the specification's words: the source name with its \<open>.pdf\<close> suffix
  stripped, then the version tag and the extension of the format.
\<close>

definition strip_pdf_suffix :: "string \<Rightarrow> string" where
  "strip_pdf_suffix nm = (if suffix ''.pdf'' nm then take (length nm - 4) nm else nm)"

definition spec_downloadName :: "format \<Rightarrow> string \<Rightarrow> string" where
  "spec_downloadName fmt nm =
     strip_pdf_suffix nm @ ''_v42.'' @ (case fmt of Excel \<Rightarrow> ''xlsx'' | Word \<Rightarrow> ''txt'')"

text \<open>The progress counter after one more tick.\<close>

definition tick :: "rat \<Rightarrow> rat" where
  "tick prog = prog + increment prog"

text \<open>
  A counter value at least 0.1 away from each threshold, and the same for a value and the
  next \<open>n\<close> values of the counter.
\<close>

definition off_threshold :: "rat \<Rightarrow> bool" where
  "off_threshold p \<longleftrightarrow>
     1 / 10 \<le> \<bar>p - 40\<bar> \<and> 1 / 10 \<le> \<bar>p - 85\<bar> \<and> 1 / 10 \<le> \<bar>p - 100\<bar>"

fun clear_of_thresholds :: "nat \<Rightarrow> rat \<Rightarrow> bool" where
  "clear_of_thresholds 0 p = off_threshold p"
| "clear_of_thresholds (Suc n) p = (off_threshold p \<and> clear_of_thresholds n (tick p))"

text \<open>
  Two more runs of the fresh component under the excel format: the file chosen and 74
  progress ticks, and the same with the 75th tick.
\<close>

definition clock :: string where
  "clock = ''1/1/2026, 10:00:00 AM''"

definition almost_done :: panel where
  "almost_done = run (initial_panel Excel True)
     (FileInputChange [report_pdf] # replicate 74 (IntervalFires 1 clock))"

definition full_run :: panel where
  "full_run = run (initial_panel Excel True)
     (FileInputChange [report_pdf] # replicate 75 (IntervalFires 1 clock))"


section \<open>Properties of the strings\<close>

lemma str_includes_sublist: "str_includes s pat \<longleftrightarrow> sublist pat s"
  by (induction s) (auto simp: sublist_Cons_right)




section \<open>The reply classifier\<close>





section \<open>Alerts of the assistant\<close>

lemma remdups_adj_hd_tl: "remdups_adj (v # xs) = v # tl (remdups_adj (v # xs))"
  by (induction xs arbitrary: v) auto

lemma errorEffect_messages_acked:
  "errorAcknowledged a = Some u \<Longrightarrow>
   messages (fold errorEffect ds a) =
     messages a @ map alert_message (tl (remdups_adj (u # surfacable ds)))"
proof (induction ds arbitrary: a u rule: surfacable.induct)
  case 1
  then show ?case by simp
next
  case (2 ds)
  then show ?case by (simp add: errorEffect_def)
next
  case (3 v ds)
  show ?case
  proof (cases "v = [] \<or> v = u")
    case True
    then have "errorEffect (Some v) a = a" using 3(3) by (auto simp: errorEffect_def)
    with True 3 show ?thesis by auto
  next
    case False
    let ?a' = "a\<lparr>errorAcknowledged := Some v, messages := messages a @ [alert_message v]\<rparr>"
    from False have step: "errorEffect (Some v) a = ?a'"
      using 3(3) by (auto simp: errorEffect_def)
    have "errorAcknowledged ?a' = Some v" by simp
    from 3(2)[OF _ this] False
    have ih: "messages (fold errorEffect ds ?a') =
      messages ?a' @ map alert_message (tl (remdups_adj (v # surfacable ds)))" by simp
    define rest where "rest = tl (remdups_adj (v # surfacable ds))"
    have rest: "remdups_adj (v # surfacable ds) = v # rest"
      unfolding rest_def by (rule remdups_adj_hd_tl)
    from False have "remdups_adj (u # v # surfacable ds) = u # v # rest"
      using rest by auto
    moreover from ih
    have "messages (fold errorEffect ds ?a') = messages ?a' @ map alert_message rest"
      by (simp only: rest_def)
    ultimately show ?thesis using rest step False by simp
  qed
qed

lemma errorEffect_messages_fresh:
  "errorAcknowledged a = None \<Longrightarrow>
   messages (fold errorEffect ds a) =
     messages a @ map alert_message (remdups_adj (surfacable ds))"
proof (induction ds arbitrary: a rule: surfacable.induct)
  case 1
  then show ?case by simp
next
  case (2 ds)
  then show ?case by (simp add: errorEffect_def)
next
  case (3 v ds)
  show ?case
  proof (cases "v = []")
    case True
    then have "errorEffect (Some v) a = a" by (simp add: errorEffect_def)
    with True 3 show ?thesis by simp
  next
    case False
    let ?a' = "a\<lparr>errorAcknowledged := Some v, messages := messages a @ [alert_message v]\<rparr>"
    from False 3(3) have step: "errorEffect (Some v) a = ?a'" by (simp add: errorEffect_def)
    have ih: "messages (fold errorEffect ds ?a') =
      messages ?a' @ map alert_message (tl (remdups_adj (v # surfacable ds)))"
      by (rule errorEffect_messages_acked) simp
    define rest where "rest = tl (remdups_adj (v # surfacable ds))"
    have rest: "remdups_adj (v # surfacable ds) = v # rest"
      unfolding rest_def by (rule remdups_adj_hd_tl)
    from ih have "messages (fold errorEffect ds ?a') = messages ?a' @ map alert_message rest"
      by (simp only: rest_def)
    with rest False step show ?thesis by simp
  qed
qed

text \<open>
  C4, as stated: at most one alert is ever appended per distinct non-null error value.
  The ref holds the last surfaced value only, so a value is alerted again once another
  value has been surfaced in between: the deliveries E1, E2, E1 leave two alerts for E1.
\<close>

theorem alert_per_value_counterexample:
  "alerts_for ''E1''
     (fold errorEffect [Some ''E1'', Some ''E2'', Some ''E1''] initial_assistant) = 2"
  by code_simp

text \<open>
  C4, amended. For every sequence of deliveries to the fresh component, the alerts in the
  transcript are those of the delivered values that are neither null nor empty, with
  adjacent repetitions among them collapsed. So the same value delivered twice leaves
  exactly one alert, two distinct non-empty values leave two, and the delivery of the value
  surfaced last, of null or of the empty string changes nothing.
\<close>

theorem errorEffect_dedup:
  "messages (fold errorEffect ds initial_assistant)
     = greeting # map alert_message (remdups_adj (surfacable ds))
   \<and> (v \<noteq> [] \<longrightarrow>
        messages (fold errorEffect [Some v, Some v] initial_assistant)
          = [greeting, alert_message v])
   \<and> (u \<noteq> [] \<and> v \<noteq> [] \<and> u \<noteq> v \<longrightarrow>
        messages (fold errorEffect [Some u, Some v] initial_assistant)
          = [greeting, alert_message u, alert_message v])
   \<and> (errorAcknowledged a = Some v \<longrightarrow> errorEffect (Some v) a = a)
   \<and> errorEffect None a = a \<and> errorEffect (Some []) a = a"
proof -
  have fresh: "errorAcknowledged initial_assistant = None"
    by (simp add: initial_assistant_def)
  have init: "messages initial_assistant = [greeting]"
    by (simp add: initial_assistant_def)
  have all: "messages (fold errorEffect ds initial_assistant)
     = greeting # map alert_message (remdups_adj (surfacable ds))" for ds
    using errorEffect_messages_fresh [OF fresh, of ds] init by simp
  have twice: "messages (fold errorEffect [Some v, Some v] initial_assistant)
     = [greeting, alert_message v]" if "v \<noteq> []"
    using that all [of "[Some v, Some v]"] by simp
  have two: "messages (fold errorEffect [Some u, Some v] initial_assistant)
     = [greeting, alert_message u, alert_message v]" if "u \<noteq> []" "v \<noteq> []" "u \<noteq> v"
    using that all [of "[Some u, Some v]"] by simp
  have again: "errorEffect (Some v) a = a" if "errorAcknowledged a = Some v"
    using that by (simp add: errorEffect_def)
  have none: "errorEffect None a = a" "errorEffect (Some []) a = a"
    by (simp_all add: errorEffect_def)
  show ?thesis
    by (intro conjI impI; (elim conjE)?; (rule all twice two again none; assumption?))
qed

theorem errorEffect_dedup_witness:
  "messages (fold errorEffect [Some ''E1'', None, Some ''E1'', Some [], Some ''E2'', Some ''E1'']
       initial_assistant)
     = [greeting, alert_message ''E1'', alert_message ''E2'', alert_message ''E1'']
   \<and> messages (fold errorEffect [Some ''E1'', Some ''E1''] initial_assistant)
     = [greeting, alert_message ''E1'']
   \<and> messages (fold errorEffect [Some ''E2'', Some ''E1''] initial_assistant)
     = [greeting, alert_message ''E2'', alert_message ''E1'']
   \<and> errorAcknowledged (errorEffect (Some ''E1'') initial_assistant) = Some ''E1''
   \<and> errorEffect (Some ''E1'') (errorEffect (Some ''E1'') initial_assistant)
     = errorEffect (Some ''E1'') initial_assistant"
proof -
  have ack: "errorAcknowledged (errorEffect (Some ''E1'') initial_assistant) = Some ''E1''"
    by (simp add: errorEffect_def initial_assistant_def)
  from errorEffect_dedup
    [of "[Some ''E1'', None, Some ''E1'', Some [], Some ''E2'', Some ''E1'']" "''E1''" "''E2''"
        "errorEffect (Some ''E1'') initial_assistant"] ack
  show ?thesis by (simp del: fold.simps)
qed


section \<open>Steps of the converter\<close>

text \<open>What each handler does to the state, as one update.\<close>

lemma handleFileChange_Cons:
  "handleFileChange (f # rest) w =
     w\<lparr>file' := Some f, loading := True, downloadReady := False, error := None,
       statusMessage := ''UPLOADING_STREAM'', simProgress := 0, resultBlob := None,
       progressTimer := Some (nextHandle w), telemetryTimer := Some (Suc (nextHandle w)),
       intervals := intervals w @ [(nextHandle w, ProgressTick 0 f (format w)),
                                   (Suc (nextHandle w), TelemetryTick 0)],
       nextHandle := Suc (Suc (nextHandle w)),
       errorUpdates := (if onErrorUpdate w then errorUpdates w @ [None, None] else errorUpdates w)\<rparr>"
  by (simp add: handleFileChange_def startConversion_def notifyError_def setInterval_def Let_def)

lemma cleanupTimers_pair:
  "progressTimer w = Some h1 \<Longrightarrow> telemetryTimer w = Some h2 \<Longrightarrow>
   intervals w = [(h1, c1), (h2, c2)] \<Longrightarrow> cleanupTimers w = w\<lparr>intervals := []\<rparr>"
  by (simp add: cleanupTimers_def clearInterval_def Let_def)

lemma fire_inactive: "map_of (intervals w) h = None \<Longrightarrow> fireInterval h now w = w"
  by (simp add: fireInterval_def)

lemma fire_progress_below:
  "intervals w = [(h1, ProgressTick p f fmt), (h2, c2)] \<Longrightarrow> p + increment p < 100 \<Longrightarrow>
   fireInterval h1 now w =
     w\<lparr>intervals := [(h1, ProgressTick (p + increment p) f fmt), (h2, c2)],
       simProgress := p + increment p\<rparr>"
  by (simp add: fireInterval_def Let_def)

lemma fire_progress_done:
  "intervals w = [(h1, ProgressTick p f fmt), (h2, c2)] \<Longrightarrow> \<not> p + increment p < 100 \<Longrightarrow>
   progressTimer w = Some h1 \<Longrightarrow> telemetryTimer w = Some h2 \<Longrightarrow>
   fireInterval h1 now w =
     w\<lparr>intervals := [], simProgress := 100, resultBlob := Some (makeBlob fmt f now),
       downloadReady := True, loading := False, statusMessage := ''EXTRACTION_SUCCESS'',
       downloads := downloads w @ [(downloadName fmt (name f), makeBlob fmt f now)]\<rparr>"
  by (simp add: fireInterval_def Let_def finishConversion_def triggerDownload_def
      cleanupTimers_def clearInterval_def)

lemma fire_telemetry:
  "intervals w = [(h1, c1), (h2, TelemetryTick n)] \<Longrightarrow> h1 \<noteq> h2 \<Longrightarrow>
   fireInterval h2 now w =
     w\<lparr>telemetry := telemetryLabels ! (n mod length telemetryLabels),
       intervals := [(h1, c1), (h2, TelemetryTick (Suc n))]\<rparr>"
  by (simp add: fireInterval_def)

lemma resetTask_eq:
  "resetTask w =
     w\<lparr>file' := None, downloadReady := False, resultBlob := None, statusMessage := [],
       simProgress := 0, telemetry := ''SYSTEM_IDLE'', error := None,
       errorUpdates := (if onErrorUpdate w then errorUpdates w @ [None] else errorUpdates w)\<rparr>"
  by (simp add: resetTask_def notifyError_def)


section \<open>The invariant of the rendered component\<close>

text \<open>
  Every state the mounted component can reach by events of rendered elements and by
  interval firings is a running or a settled task with no error set.
\<close>

lemma increment_pos: "0 < increment p"
  by (simp add: increment_def)

lemma inv_initial: "panel_inv (initial_panel fmt cb)"
  by (simp add: panel_inv_def settled_def initial_panel_def)

lemma running_not_settled: "running w \<Longrightarrow> \<not> settled w"
  by (auto simp: running_def settled_def)

lemma running_fire:
  assumes "running w" "error w = None"
  shows "panel_inv (fireInterval h now w) \<and> simProgress w \<le> simProgress (fireInterval h now w)"
proof -
  from assms(1) obtain h1 h2 f fmt n where
    ne: "h1 \<noteq> h2" and pt: "progressTimer w = Some h1" and tt: "telemetryTimer w = Some h2"
    and fl: "file' w = Some f"
    and iv: "intervals w = [(h1, ProgressTick (simProgress w) f fmt), (h2, TelemetryTick n)]"
    and ld: "loading w" "\<not> downloadReady w" and rg: "0 \<le> simProgress w" "simProgress w < 100"
    unfolding running_def by blast
  let ?p = "simProgress w"
  consider (prog) "h = h1" | (tel) "h = h2" | (other) "h \<noteq> h1" "h \<noteq> h2" by blast
  then show ?thesis
  proof cases
    case prog
    show ?thesis
    proof (cases "?p + increment ?p < 100")
      case True
      have pos: "0 < increment ?p" by (rule increment_pos)
      from fire_progress_below [OF iv True, of now] prog
      have eq: "fireInterval h now w =
        w\<lparr>intervals := [(h1, ProgressTick (?p + increment ?p) f fmt), (h2, TelemetryTick n)],
          simProgress := ?p + increment ?p\<rparr>" by simp
      have "running (fireInterval h now w)"
        unfolding eq running_def using ne pt tt fl ld rg True pos by simp
      moreover have "?p \<le> simProgress (fireInterval h now w)"
        unfolding eq using pos by simp
      ultimately show ?thesis using assms(2) eq by (simp add: panel_inv_def)
    next
      case False
      from fire_progress_done [OF iv False pt tt, of now] prog
      have eq: "fireInterval h now w =
        w\<lparr>intervals := [], simProgress := 100, resultBlob := Some (makeBlob fmt f now),
          downloadReady := True, loading := False, statusMessage := ''EXTRACTION_SUCCESS'',
          downloads := downloads w @ [(downloadName fmt (name f), makeBlob fmt f now)]\<rparr>"
        by simp
      have "settled (fireInterval h now w)"
        unfolding eq settled_def using fl by auto
      moreover have "?p \<le> simProgress (fireInterval h now w)"
        unfolding eq using rg by simp
      ultimately show ?thesis using assms(2) eq by (simp add: panel_inv_def)
    qed
  next
    case tel
    from fire_telemetry [OF iv ne, of now] tel
    have eq: "fireInterval h now w =
      w\<lparr>telemetry := telemetryLabels ! (n mod length telemetryLabels),
        intervals := [(h1, ProgressTick ?p f fmt), (h2, TelemetryTick (Suc n))]\<rparr>" by simp
    have "running (fireInterval h now w)"
      unfolding eq running_def using ne pt tt fl ld rg by simp
    then show ?thesis using assms(2) eq by (simp add: panel_inv_def)
  next
    case other
    then have "map_of (intervals w) h = None" using iv by simp
    then have "fireInterval h now w = w" by (rule fire_inactive)
    then show ?thesis using assms by (simp add: panel_inv_def)
  qed
qed

lemma settled_fire: "settled w \<Longrightarrow> fireInterval h now w = w"
  by (rule fire_inactive) (simp add: settled_def)

lemma running_ui_other:
  assumes "running w" "error w = None" "\<And>h now. e \<noteq> IntervalFires h now"
  shows "ui_step w e = w"
proof -
  from assms(1) have "loading w" by (simp add: running_def)
  with assms(2,3) show ?thesis by (cases e) (auto simp: ui_step_def)
qed

lemma settled_select:
  assumes "settled w" "error w = None" "\<not> downloadReady w"
  shows "running (handleFileChange (f # rest) w) \<and> error (handleFileChange (f # rest) w) = None"
proof -
  from assms(1) have iv: "intervals w = []" by (simp add: settled_def)
  show ?thesis unfolding handleFileChange_Cons running_def using iv by simp
qed

lemma settled_reset: "settled w \<Longrightarrow> settled (resetTask w) \<and> error (resetTask w) = None"
  unfolding resetTask_eq settled_def by simp

lemma settled_step:
  assumes "settled w" "error w = None"
  shows "panel_inv (ui_step w e)"
proof -
  from assms have nl: "\<not> loading w" by (simp add: settled_def)
  from assms have inv: "panel_inv w" by (simp add: panel_inv_def)
  show ?thesis
  proof (cases e)
    case (FileInputChange files)
    show ?thesis
    proof (cases "downloadReady w \<or> files = []")
      case True
      then have "ui_step w e = w"
        using FileInputChange nl by (auto simp: ui_step_def handleFileChange_def)
      with inv show ?thesis by simp
    next
      case False
      then obtain f rest where fs: "files = f # rest" by (cases files) auto
      from False nl have "ui_step w e = handleFileChange (f # rest) w"
        using FileInputChange fs by (simp add: ui_step_def)
      with settled_select [OF assms, of f rest] False show ?thesis
        by (simp add: panel_inv_def)
    qed
  next
    case ClickXLSX
    then have "ui_step w e = w\<lparr>format := Excel\<rparr>" using nl by (simp add: ui_step_def setFormat_def)
    with assms show ?thesis by (auto simp: panel_inv_def settled_def)
  next
    case ClickTEXT
    then have "ui_step w e = w\<lparr>format := Word\<rparr>" using nl by (simp add: ui_step_def setFormat_def)
    with assms show ?thesis by (auto simp: panel_inv_def settled_def)
  next
    case ClickReDownload
    show ?thesis
    proof (cases "downloadReady w")
      case True
      with assms(1) obtain b f where bf: "resultBlob w = Some b" "file' w = Some f"
        unfolding settled_def by auto
      with True nl ClickReDownload
      have "ui_step w e = w\<lparr>downloads := downloads w @ [(downloadName (format w) (name f), b)]\<rparr>"
        by (simp add: ui_step_def triggerDownload_def)
      with assms show ?thesis by (auto simp: panel_inv_def settled_def)
    next
      case False
      with nl ClickReDownload have "ui_step w e = w" by (simp add: ui_step_def)
      with inv show ?thesis by simp
    qed
  next
    case ClickNewTask
    then have "ui_step w e = w \<or> ui_step w e = resetTask w" by (simp add: ui_step_def)
    with inv settled_reset [OF assms(1)] show ?thesis by (auto simp: panel_inv_def)
  next
    case ClickForceReboot
    with assms(2) have "ui_step w e = w" by (simp add: ui_step_def)
    with inv show ?thesis by simp
  next
    case ClickDismiss
    with assms(2) have "ui_step w e = w" by (simp add: ui_step_def)
    with inv show ?thesis by simp
  next
    case (IntervalFires h now)
    then have "ui_step w e = w" using settled_fire [OF assms(1)] by (simp add: ui_step_def)
    with inv show ?thesis by simp
  qed
qed

lemma inv_step: "panel_inv w \<Longrightarrow> panel_inv (ui_step w e)"
proof -
  assume inv: "panel_inv w"
  then have err: "error w = None" by (simp add: panel_inv_def)
  from inv consider (r) "running w" | (s) "settled w" by (auto simp: panel_inv_def)
  then show ?thesis
  proof cases
    case r
    show ?thesis
    proof (cases "\<exists>h now. e = IntervalFires h now")
      case True
      then obtain h now where "e = IntervalFires h now" by blast
      with running_fire [OF r err, of h now] show ?thesis by (simp add: ui_step_def)
    next
      case False
      then have "ui_step w e = w" using running_ui_other [OF r err] by blast
      with inv show ?thesis by simp
    qed
  next
    case s
    then show ?thesis using err by (rule settled_step)
  qed
qed

lemma inv_run: "panel_inv w \<Longrightarrow> panel_inv (run w es)"
  unfolding run_def by (induction es arbitrary: w) (simp_all add: inv_step)

lemma inv_reachable: "panel_inv (run (initial_panel fmt cb) es)"
  by (rule inv_run [OF inv_initial])


section \<open>Runs\<close>

lemma run_Nil: "run w [] = w"
  by (simp add: run_def)

lemma run_Cons: "run w (e # es) = run (ui_step w e) es"
  by (simp add: run_def)

lemma run_append: "run w (es @ es') = run (run w es) es'"
  by (simp add: run_def)

lemma tick_gt: "p < tick p"
  by (simp add: tick_def increment_def)

lemma funpow_tick_ge: "p \<le> (tick ^^ n) p"
proof (induction n)
  case 0
  then show ?case by simp
next
  case (Suc n)
  have "(tick ^^ n) p < tick ((tick ^^ n) p)" by (rule tick_gt)
  with Suc show ?case by simp
qed

lemma run_ticks:
  "intervals w = [(h1, ProgressTick p f fmt), (h2, c2)] \<Longrightarrow> (tick ^^ Suc n) p < 100 \<Longrightarrow>
   run w (replicate (Suc n) (IntervalFires h1 now)) =
     w\<lparr>intervals := [(h1, ProgressTick ((tick ^^ Suc n) p) f fmt), (h2, c2)],
       simProgress := (tick ^^ Suc n) p\<rparr>"
proof (induction n arbitrary: w p)
  case 0
  then have "p + increment p < 100" by (simp add: tick_def)
  from fire_progress_below [OF 0(1) this, of now] show ?case
    by (simp add: run_Cons run_Nil ui_step_def tick_def)
next
  case (Suc n)
  have swap: "(tick ^^ Suc (Suc n)) p = (tick ^^ Suc n) (tick p)"
    by (simp only: funpow_Suc_right comp_apply)
  from Suc(3) have lt1: "(tick ^^ Suc n) (tick p) < 100" by (simp only: swap)
  have "tick p \<le> (tick ^^ Suc n) (tick p)" by (rule funpow_tick_ge)
  with lt1 have "tick p < 100" by (rule order.strict_trans1 [rotated])
  then have below: "p + increment p < 100" by (simp add: tick_def)
  let ?w1 = "w\<lparr>intervals := [(h1, ProgressTick (tick p) f fmt), (h2, c2)],
               simProgress := tick p\<rparr>"
  from fire_progress_below [OF Suc(2) below, of now]
  have step: "ui_step w (IntervalFires h1 now) = ?w1"
    by (simp add: ui_step_def tick_def)
  have iv1: "intervals ?w1 = [(h1, ProgressTick (tick p) f fmt), (h2, c2)]" by simp
  have "run w (replicate (Suc (Suc n)) (IntervalFires h1 now))
      = run ?w1 (replicate (Suc n) (IntervalFires h1 now))"
    by (simp only: replicate_Suc run_Cons step)
  also have "\<dots> = ?w1\<lparr>intervals := [(h1, ProgressTick ((tick ^^ Suc n) (tick p)) f fmt), (h2, c2)],
       simProgress := (tick ^^ Suc n) (tick p)\<rparr>"
    by (rule Suc(1) [OF iv1 lt1])
  finally show ?case by (simp only: swap) simp
qed

text \<open>The three concrete runs, evaluated.\<close>

lemma midrun_eq:
  "midrun = \<lparr>format = Excel, onErrorUpdate = True, file' = Some report_pdf, loading = True,
      downloadReady = False, error = None, statusMessage = ''UPLOADING_STREAM'',
      telemetry = ''SYSTEM_IDLE'', simProgress = 9 / 2, resultBlob = None,
      progressTimer = Some 1, telemetryTimer = Some 2,
      intervals = [(1, ProgressTick (9 / 2) report_pdf Excel), (2, TelemetryTick 0)],
      nextHandle = 3, downloads = [], errorUpdates = [None, None]\<rparr>"
  by (simp add: midrun_def run_def ui_step_def initial_panel_def handleFileChange_Cons
      fire_progress_below increment_def)

lemma tick74: "(tick ^^ 74) 0 = 498 / 5"
  by (simp add: eval_nat_numeral tick_def increment_def)

lemma started_eq:
  "ui_step (initial_panel Excel True) (FileInputChange [report_pdf]) =
     \<lparr>format = Excel, onErrorUpdate = True, file' = Some report_pdf, loading = True,
      downloadReady = False, error = None, statusMessage = ''UPLOADING_STREAM'',
      telemetry = ''SYSTEM_IDLE'', simProgress = 0, resultBlob = None,
      progressTimer = Some 1, telemetryTimer = Some 2,
      intervals = [(1, ProgressTick 0 report_pdf Excel), (2, TelemetryTick 0)],
      nextHandle = 3, downloads = [], errorUpdates = [None, None]\<rparr>"
  by (simp add: ui_step_def initial_panel_def handleFileChange_Cons)

lemma almost_done_eq:
  "almost_done =
     \<lparr>format = Excel, onErrorUpdate = True, file' = Some report_pdf, loading = True,
      downloadReady = False, error = None, statusMessage = ''UPLOADING_STREAM'',
      telemetry = ''SYSTEM_IDLE'', simProgress = 498 / 5, resultBlob = None,
      progressTimer = Some 1, telemetryTimer = Some 2,
      intervals = [(1, ProgressTick (498 / 5) report_pdf Excel), (2, TelemetryTick 0)],
      nextHandle = 3, downloads = [], errorUpdates = [None, None]\<rparr>"
proof -
  let ?w1 = "ui_step (initial_panel Excel True) (FileInputChange [report_pdf])"
  have iv: "intervals ?w1 = [(1, ProgressTick 0 report_pdf Excel), (2, TelemetryTick 0)]"
    by (simp add: started_eq)
  have n: "(74::nat) = Suc 73" by simp
  have lt: "(tick ^^ Suc 73) 0 < 100" unfolding n [symmetric] tick74 by simp
  have "almost_done = run ?w1 (replicate (Suc 73) (IntervalFires 1 clock))"
    unfolding almost_done_def run_Cons n ..
  also note run_ticks [OF iv lt, of clock]
  finally show ?thesis unfolding n [symmetric] tick74 by (simp add: started_eq)
qed

lemma full_run_step: "full_run = ui_step almost_done (IntervalFires 1 clock)"
proof -
  have "replicate 75 (IntervalFires 1 clock)
      = replicate 74 (IntervalFires 1 clock) @ [IntervalFires 1 clock]"
    unfolding replicate_append_same by (simp add: eval_nat_numeral)
  then have "FileInputChange [report_pdf] # replicate 75 (IntervalFires 1 clock)
      = (FileInputChange [report_pdf] # replicate 74 (IntervalFires 1 clock))
        @ [IntervalFires 1 clock]" by simp
  then show ?thesis
    unfolding full_run_def almost_done_def by (simp only: run_append run_Cons run_Nil)
qed

lemma full_run_eq:
  "full_run =
     \<lparr>format = Excel, onErrorUpdate = True, file' = Some report_pdf, loading = False,
      downloadReady = True, error = None, statusMessage = ''EXTRACTION_SUCCESS'',
      telemetry = ''SYSTEM_IDLE'', simProgress = 100,
      resultBlob = Some (makeBlob Excel report_pdf clock),
      progressTimer = Some 1, telemetryTimer = Some 2, intervals = [],
      nextHandle = 3, downloads = [(''report_v42.xlsx'', makeBlob Excel report_pdf clock)],
      errorUpdates = [None, None]\<rparr>"
proof -
  have iv: "intervals almost_done
      = [(1, ProgressTick (498 / 5) report_pdf Excel), (2, TelemetryTick 0)]"
    by (simp add: almost_done_eq)
  have ge: "\<not> (498 / 5 :: rat) + increment (498 / 5) < 100" by (simp add: increment_def)
  have pt: "progressTimer almost_done = Some 1" and tt: "telemetryTimer almost_done = Some 2"
    by (simp_all add: almost_done_eq)
  have nm: "downloadName Excel (name report_pdf) = ''report_v42.xlsx''"
    by (simp add: downloadName_def report_pdf_def extension_def)
  have "ui_step almost_done (IntervalFires 1 clock) = fireInterval 1 clock almost_done"
    by (simp add: ui_step_def)
  also note fire_progress_done [OF iv ge pt tt, of clock]
  finally show ?thesis
    unfolding full_run_step by (simp add: nm) (simp add: almost_done_eq)
qed

lemma full_run_reachable:
  "full_run = run (initial_panel Excel True)
     (FileInputChange [report_pdf] # replicate 75 (IntervalFires 1 clock))"
  by (simp only: full_run_def)

lemma full_run_new_task:
  "ui_step full_run ClickNewTask = resetTask full_run \<and> ui_step full_run ClickNewTask \<noteq> full_run"
proof -
  have eq: "ui_step full_run ClickNewTask = resetTask full_run"
    by (simp add: ui_step_def full_run_eq)
  have "downloadReady full_run" by (simp add: full_run_eq)
  moreover have "\<not> downloadReady (resetTask full_run)" unfolding resetTask_eq by simp
  ultimately have "resetTask full_run \<noteq> full_run" by auto
  with eq show ?thesis by simp
qed

lemma almost_done_reachable:
  "almost_done = run (initial_panel Excel True)
     (FileInputChange [report_pdf] # replicate 74 (IntervalFires 1 clock))"
  by (simp only: almost_done_def)

lemma trajectory_clear_of_thresholds: "clear_of_thresholds 75 0"
  by (simp add: eval_nat_numeral tick_def increment_def off_threshold_def)


section \<open>File selection\<close>

lemma busy_fire:
  "loading w \<or> downloadReady w \<Longrightarrow>
   loading (fireInterval h now w) \<or> downloadReady (fireInterval h now w)"
  by (auto simp: fireInterval_def finishConversion_def triggerDownload_def cleanupTimers_def
      clearInterval_def Let_def split: option.splits callback.splits)

lemma busy_run_ignores_selection:
  "loading w \<or> downloadReady w \<Longrightarrow> \<forall>e \<in> set es. is_file_input e \<or> is_interval e \<Longrightarrow>
   run w es = run w (filter is_interval es)"
proof (induction es arbitrary: w)
  case Nil
  then show ?case by simp
next
  case (Cons e es)
  from Cons.prems(2) have rest: "\<forall>e \<in> set es. is_file_input e \<or> is_interval e" by simp
  from Cons.prems(2) consider (sel) files where "e = FileInputChange files"
    | (iv) h now where "e = IntervalFires h now"
    by (cases e) auto
  then show ?case
  proof cases
    case sel
    with Cons.prems(1) have "ui_step w e = w" by (auto simp: ui_step_def)
    with Cons.IH [OF Cons.prems(1) rest] sel show ?thesis by (simp add: run_Cons)
  next
    case iv
    then have st: "ui_step w e = fireInterval h now w" by (simp add: ui_step_def)
    from busy_fire [OF Cons.prems(1), of h now]
    have "run (fireInterval h now w) es = run (fireInterval h now w) (filter is_interval es)"
      using rest by (rule Cons.IH)
    with st iv show ?thesis by (simp add: run_Cons)
  qed
qed

text \<open>
  C3. A file selection that comes while a run is under way is ignored: the file input is
  rendered only while the task is neither loading nor ready, so the event reaches no
  handler and the state stays as it is (no new run, nothing overwritten, no error); a
  selection in the fresh or reset view is handled by \<open>handleFileChange\<close>. Selections
  mixed into the interval firings of a run change nothing of its outcome.
\<close>

theorem file_input_gated:
  "(loading w \<or> downloadReady w \<longrightarrow> ui_step w (FileInputChange files) = w)
   \<and> (\<not> loading w \<and> \<not> downloadReady w \<longrightarrow>
        ui_step w (FileInputChange files) = handleFileChange files w)
   \<and> (loading w \<and> (\<forall>e \<in> set es. is_file_input e \<or> is_interval e) \<longrightarrow>
        run w es = run w (filter is_interval es))"
proof -
  have gate: "ui_step w (FileInputChange files) = w" if "loading w \<or> downloadReady w"
    using that by (auto simp: ui_step_def)
  have pass: "ui_step w (FileInputChange files) = handleFileChange files w"
    if "\<not> loading w \<and> \<not> downloadReady w"
    using that by (simp add: ui_step_def)
  have seq: "run w es = run w (filter is_interval es)"
    if "loading w \<and> (\<forall>e \<in> set es. is_file_input e \<or> is_interval e)"
    using that busy_run_ignores_selection [of w es] by blast
  from gate pass seq show ?thesis by blast
qed

theorem file_input_gated_witness:
  "loading midrun \<and> ui_step midrun (FileInputChange [invoice_pdf]) = midrun
   \<and> run midrun [FileInputChange [invoice_pdf], IntervalFires 1 clock, FileInputChange [other_pdf]]
       = run midrun [IntervalFires 1 clock]
   \<and> \<not> loading (initial_panel Excel True) \<and> \<not> downloadReady (initial_panel Excel True)
   \<and> ui_step (initial_panel Excel True) (FileInputChange [invoice_pdf])
        = handleFileChange [invoice_pdf] (initial_panel Excel True)"
proof -
  have a: "loading midrun" by (simp add: midrun_eq)
  have b: "\<not> loading (initial_panel Excel True) \<and> \<not> downloadReady (initial_panel Excel True)"
    by (simp add: initial_panel_def)
  have c: "\<forall>e \<in> set [FileInputChange [invoice_pdf], IntervalFires 1 clock,
      FileInputChange [other_pdf]]. is_file_input e \<or> is_interval e" by simp
  have f: "filter is_interval [FileInputChange [invoice_pdf], IntervalFires 1 clock,
      FileInputChange [other_pdf]] = [IntervalFires 1 clock]" by simp
  note T = file_input_gated [of midrun "[invoice_pdf]"
      "[FileInputChange [invoice_pdf], IntervalFires 1 clock, FileInputChange [other_pdf]]"]
  from T a have t1: "ui_step midrun (FileInputChange [invoice_pdf]) = midrun" by blast
  from T a c have "run midrun [FileInputChange [invoice_pdf], IntervalFires 1 clock,
      FileInputChange [other_pdf]] = run midrun (filter is_interval
        [FileInputChange [invoice_pdf], IntervalFires 1 clock, FileInputChange [other_pdf]])"
    by blast
  then have t2: "run midrun [FileInputChange [invoice_pdf], IntervalFires 1 clock,
      FileInputChange [other_pdf]] = run midrun [IntervalFires 1 clock]"
    by (simp only: f)
  from file_input_gated [of "initial_panel Excel True" "[invoice_pdf]" "[]"] b
  have t3: "ui_step (initial_panel Excel True) (FileInputChange [invoice_pdf])
        = handleFileChange [invoice_pdf] (initial_panel Excel True)" by blast
  from a b t1 t2 t3 show ?thesis by (intro conjI) blast+
qed

text \<open>
  The ignoring is the view's: \<open>handleFileChange\<close> itself has no check of the loading
  flag. Applied to the running task it would replace the file, put the progress back to 0
  and start two more intervals beside the two of the first run.
\<close>

lemma handleFileChange_unguarded:
  "loading midrun \<and> file' midrun = Some report_pdf \<and> simProgress midrun = 9 / 2
   \<and> file' (handleFileChange [invoice_pdf] midrun) = Some invoice_pdf
   \<and> simProgress (handleFileChange [invoice_pdf] midrun) = 0
   \<and> map fst (intervals (handleFileChange [invoice_pdf] midrun)) = [1, 2, 3, 4]
   \<and> handleFileChange [invoice_pdf] midrun \<noteq> midrun"
proof -
  have a: "loading midrun \<and> file' midrun = Some report_pdf \<and> simProgress midrun = 9 / 2"
    by (simp add: midrun_eq)
  have b: "file' (handleFileChange [invoice_pdf] midrun) = Some invoice_pdf
    \<and> simProgress (handleFileChange [invoice_pdf] midrun) = 0
    \<and> map fst (intervals (handleFileChange [invoice_pdf] midrun)) = [1, 2, 3, 4]"
    unfolding handleFileChange_Cons by (simp add: midrun_eq)
  from a b have "simProgress (handleFileChange [invoice_pdf] midrun) \<noteq> simProgress midrun"
    by simp
  then have "handleFileChange [invoice_pdf] midrun \<noteq> midrun" by auto
  with a b show ?thesis by simp
qed


section \<open>Timers\<close>

text \<open>
  C1, as stated: whenever reset is called during a run, both timers are cancelled and no
  callback fires afterwards. \<open>resetTask\<close> clears no interval: called on the running task
  it leaves both intervals active, and the next progress tick and telemetry tick write
  the progress and the label it has just reset.
\<close>

theorem resetTask_keeps_timers_counterexample:
  "loading midrun
   \<and> intervals (resetTask midrun)
       = [(1, ProgressTick (9 / 2) report_pdf Excel), (2, TelemetryTick 0)]
   \<and> simProgress (resetTask midrun) = 0
   \<and> simProgress (fireInterval 1 ''1/1/2026, 10:00:01 AM'' (resetTask midrun)) = 9
   \<and> telemetry (resetTask midrun) = ''SYSTEM_IDLE''
   \<and> telemetry (fireInterval 2 ''1/1/2026, 10:00:01 AM'' (resetTask midrun))
       = ''LOCAL_BUFFER_SCANNING''"
proof -
  have iv: "intervals (resetTask midrun)
       = [(1, ProgressTick (9 / 2) report_pdf Excel), (2, TelemetryTick 0)]"
    unfolding resetTask_eq by (simp add: midrun_eq)
  have p: "(9 / 2 :: rat) + increment (9 / 2) < 100" by (simp add: increment_def)
  have ne: "(1::nat) \<noteq> 2" by simp
  show ?thesis
    unfolding fire_progress_below [OF iv p] fire_telemetry [OF iv ne]
    unfolding resetTask_eq by (simp add: midrun_eq increment_def telemetryLabels_def)
qed

text \<open>
  C1, amended. In every state the rendered component reaches: once the progress is 100
  the task is not loading; whenever the task is not loading no interval is active, so an
  interval callback changes nothing; and a reset that the view offers (it changes the
  state) comes from a task that is not loading and leaves no interval active.
\<close>

theorem timers_cancelled_when_settled:
  assumes "w = run (initial_panel fmt cb) es"
  shows "(simProgress w = 100 \<longrightarrow> \<not> loading w \<and> intervals w = [] \<and> fireInterval h now w = w)
   \<and> (\<not> loading w \<longrightarrow> intervals w = [] \<and> fireInterval h now w = w)
   \<and> (e \<in> {ClickNewTask, ClickForceReboot} \<and> ui_step w e \<noteq> w \<longrightarrow>
        \<not> loading w \<and> ui_step w e = resetTask w \<and> intervals (ui_step w e) = []
        \<and> fireInterval h now (ui_step w e) = ui_step w e)"
proof -
  have inv: "panel_inv w" unfolding assms by (rule inv_reachable)
  then have err: "error w = None" by (simp add: panel_inv_def)
  have st: "settled w" if "\<not> loading w"
    using inv that by (auto simp: panel_inv_def running_def)
  have full: "\<not> loading w" if "simProgress w = 100"
    using inv that by (auto simp: panel_inv_def running_def settled_def)
  have quiet: "intervals w = [] \<and> fireInterval h now w = w" if "settled w" for w
    using that settled_fire [OF that] by (simp add: settled_def)
  have reset: "\<not> loading w \<and> ui_step w e = resetTask w \<and> intervals (ui_step w e) = []
        \<and> fireInterval h now (ui_step w e) = ui_step w e"
    if e: "e \<in> {ClickNewTask, ClickForceReboot}" and ch: "ui_step w e \<noteq> w"
  proof -
    from e ch err have nl: "\<not> loading w" and eq: "ui_step w e = resetTask w"
      by (auto simp: ui_step_def split: if_splits)
    from settled_reset [OF st [OF nl]] have "settled (ui_step w e)" by (simp add: eq)
    from quiet [OF this] nl eq show ?thesis by simp
  qed
  from full st quiet reset show ?thesis by blast
qed

theorem timers_cancelled_when_settled_witness:
  "simProgress full_run = 100 \<and> \<not> loading full_run \<and> intervals full_run = []
   \<and> fireInterval 1 clock full_run = full_run
   \<and> ui_step full_run ClickNewTask \<noteq> full_run
   \<and> ui_step full_run ClickNewTask = resetTask full_run
   \<and> intervals (ui_step full_run ClickNewTask) = []
   \<and> fireInterval 1 clock (ui_step full_run ClickNewTask) = ui_step full_run ClickNewTask"
proof -
  have p: "simProgress full_run = 100" by (simp add: full_run_eq)
  have m: "ClickNewTask \<in> {ClickNewTask, ClickForceReboot}" by simp
  have c: "ui_step full_run ClickNewTask \<noteq> full_run"
    using full_run_new_task by (rule conjunct2)
  from timers_cancelled_when_settled [OF full_run_reachable, of 1 clock ClickNewTask] p m c
  show ?thesis by blast
qed


section \<open>Reset\<close>

text \<open>
  C2, as stated: after reset in any state, also during a run, every task field has its
  Idle default. \<open>resetTask\<close> does not write the loading flag: called on the running task
  it leaves the task loading.
\<close>

theorem resetTask_midrun_counterexample:
  "loading midrun \<and> loading (resetTask midrun) \<and> \<not> is_idle (resetTask midrun)"
  unfolding resetTask_eq is_idle_def by (simp add: midrun_eq)

text \<open>
  C2, amended. After reset in any state the file, the ready flag, the result payload, the
  status message, the telemetry label, the progress and the error have their Idle
  defaults, and null is forwarded to the host when it supplies the callback. From a task
  that is not loading all task fields are at their Idle defaults afterwards; every reset
  that the view offers in a reachable state is of this kind.
\<close>

theorem resetTask_idle:
  "file' (resetTask w) = None \<and> \<not> downloadReady (resetTask w) \<and> resultBlob (resetTask w) = None
   \<and> statusMessage (resetTask w) = [] \<and> telemetry (resetTask w) = ''SYSTEM_IDLE''
   \<and> simProgress (resetTask w) = 0 \<and> error (resetTask w) = None
   \<and> (onErrorUpdate w \<longrightarrow> errorUpdates (resetTask w) = errorUpdates w @ [None])
   \<and> (\<not> loading w \<longrightarrow> is_idle (resetTask w))
   \<and> (w = run (initial_panel fmt cb) es \<and> e \<in> {ClickNewTask, ClickForceReboot}
        \<and> ui_step w e \<noteq> w \<longrightarrow> ui_step w e = resetTask w \<and> is_idle (ui_step w e))"
proof -
  have fields: "file' (resetTask w) = None \<and> \<not> downloadReady (resetTask w)
     \<and> resultBlob (resetTask w) = None
     \<and> statusMessage (resetTask w) = [] \<and> telemetry (resetTask w) = ''SYSTEM_IDLE''
     \<and> simProgress (resetTask w) = 0 \<and> error (resetTask w) = None
     \<and> (onErrorUpdate w \<longrightarrow> errorUpdates (resetTask w) = errorUpdates w @ [None])"
    unfolding resetTask_eq by simp
  have idle: "is_idle (resetTask w)" if "\<not> loading w"
    using that unfolding resetTask_eq is_idle_def by simp
  have ui: "ui_step w e = resetTask w \<and> is_idle (ui_step w e)"
    if "w = run (initial_panel fmt cb) es" "e \<in> {ClickNewTask, ClickForceReboot}"
       "ui_step w e \<noteq> w"
  proof -
    have "panel_inv w" unfolding that(1) by (rule inv_reachable)
    then have "error w = None" by (simp add: panel_inv_def)
    with that(2,3) have "\<not> loading w" and "ui_step w e = resetTask w"
      by (auto simp: ui_step_def split: if_splits)
    with idle show ?thesis by simp
  qed
  from fields idle ui show ?thesis by blast
qed

theorem resetTask_idle_witness:
  "\<not> loading full_run \<and> is_idle (resetTask full_run) \<and> onErrorUpdate full_run
   \<and> errorUpdates (resetTask full_run) = [None, None, None]
   \<and> ui_step full_run ClickNewTask \<noteq> full_run \<and> is_idle (ui_step full_run ClickNewTask)"
proof -
  have a: "\<not> loading full_run" "onErrorUpdate full_run" "errorUpdates full_run = [None, None]"
    by (simp_all add: full_run_eq)
  have m: "ClickNewTask \<in> {ClickNewTask, ClickForceReboot}" by simp
  have c: "ui_step full_run ClickNewTask \<noteq> full_run"
    using full_run_new_task by (rule conjunct2)
  note T = resetTask_idle [of full_run Excel True
      "FileInputChange [report_pdf] # replicate 75 (IntervalFires 1 clock)" ClickNewTask]
  from T have t1: "\<not> loading full_run \<longrightarrow> is_idle (resetTask full_run)" by blast
  from T have t2: "onErrorUpdate full_run \<longrightarrow>
      errorUpdates (resetTask full_run) = errorUpdates full_run @ [None]" by blast
  from T full_run_reachable m c have t3: "is_idle (ui_step full_run ClickNewTask)" by blast
  from t1 t2 t3 a c show ?thesis by simp
qed


section \<open>Progress\<close>

text \<open>
  C6. In every state the rendered component reaches, the progress lies between 0 and 100,
  and the task has succeeded (ready and no longer loading) exactly when the progress is
  100. While a run is under way no event lowers the progress, and the tick of the
  progress timer adds the step of the counter's tier (4.5 below 40, 1.2 from 40 to below
  85, 0.5 from 85 on), shows the sum clamped to 100, and makes the task ready exactly when
  the sum has reached 100.
\<close>

theorem progress_bounded_monotone:
  assumes "w = run (initial_panel fmt cb) es"
  shows "0 \<le> simProgress w \<and> simProgress w \<le> 100
   \<and> ((\<not> loading w \<and> downloadReady w) = (simProgress w = 100))
   \<and> (loading w \<longrightarrow> simProgress w \<le> simProgress (ui_step w e))
   \<and> (loading w \<longrightarrow>
        (\<exists>h f fmt'. progressTimer w = Some h
           \<and> map_of (intervals w) h = Some (ProgressTick (simProgress w) f fmt')
           \<and> simProgress (fireInterval h now w)
               = min (simProgress w + increment (simProgress w)) 100
           \<and> downloadReady (fireInterval h now w)
               = (100 \<le> simProgress w + increment (simProgress w))))
   \<and> increment p = (if p < 40 then 4.5 else if p < 85 then 1.2 else 0.5)"
proof -
  have inv: "panel_inv w" unfolding assms by (rule inv_reachable)
  then have err: "error w = None" by (simp add: panel_inv_def)
  from inv have bounds: "0 \<le> simProgress w \<and> simProgress w \<le> 100"
    by (auto simp: panel_inv_def running_def settled_def split: if_splits)
  from inv have done_iff: "(\<not> loading w \<and> downloadReady w) = (simProgress w = 100)"
    by (auto simp: panel_inv_def running_def settled_def split: if_splits)
  have run: "running w" if "loading w"
    using inv that by (auto simp: panel_inv_def settled_def)
  have mono: "simProgress w \<le> simProgress (ui_step w e)" if "loading w"
  proof (cases "\<exists>h t. e = IntervalFires h t")
    case True
    then obtain h t where "e = IntervalFires h t" by blast
    with running_fire [OF run [OF that] err, of h t] show ?thesis by (simp add: ui_step_def)
  next
    case False
    then have "ui_step w e = w" using running_ui_other [OF run [OF that] err] by blast
    then show ?thesis by simp
  qed
  have step: "\<exists>h f fmt'. progressTimer w = Some h
           \<and> map_of (intervals w) h = Some (ProgressTick (simProgress w) f fmt')
           \<and> simProgress (fireInterval h now w)
               = min (simProgress w + increment (simProgress w)) 100
           \<and> downloadReady (fireInterval h now w)
               = (100 \<le> simProgress w + increment (simProgress w))" if "loading w"
  proof -
    from run [OF that] obtain h1 h2 f fmt' n where
      pt: "progressTimer w = Some h1" and tt: "telemetryTimer w = Some h2"
      and iv: "intervals w = [(h1, ProgressTick (simProgress w) f fmt'), (h2, TelemetryTick n)]"
      and nr: "\<not> downloadReady w"
      unfolding running_def by blast
    have look: "map_of (intervals w) h1 = Some (ProgressTick (simProgress w) f fmt')"
      by (simp add: iv)
    have "simProgress (fireInterval h1 now w)
               = min (simProgress w + increment (simProgress w)) 100
           \<and> downloadReady (fireInterval h1 now w)
               = (100 \<le> simProgress w + increment (simProgress w))"
    proof (cases "simProgress w + increment (simProgress w) < 100")
      case True
      show ?thesis unfolding fire_progress_below [OF iv True] using True nr by simp
    next
      case False
      show ?thesis unfolding fire_progress_done [OF iv False pt tt] using False by simp
    qed
    with pt look show ?thesis by blast
  qed
  have inc: "increment p = (if p < 40 then 4.5 else if p < 85 then 1.2 else 0.5)"
    by (simp add: increment_def)
  from bounds done_iff mono step inc show ?thesis by blast
qed

theorem progress_bounded_monotone_witness:
  "loading almost_done \<and> \<not> downloadReady almost_done \<and> simProgress almost_done = 498 / 5
   \<and> 0 \<le> simProgress almost_done \<and> simProgress almost_done \<le> 100
   \<and> simProgress almost_done \<le> simProgress (ui_step almost_done (IntervalFires 1 clock))
   \<and> increment (498 / 5) = 1 / 2
   \<and> simProgress (ui_step almost_done (IntervalFires 1 clock)) = 100
   \<and> downloadReady (ui_step almost_done (IntervalFires 1 clock))
   \<and> \<not> loading (ui_step almost_done (IntervalFires 1 clock))"
proof -
  have a: "loading almost_done" "\<not> downloadReady almost_done" "simProgress almost_done = 498 / 5"
    by (simp_all add: almost_done_eq)
  have b: "simProgress (ui_step almost_done (IntervalFires 1 clock)) = 100
    \<and> downloadReady (ui_step almost_done (IntervalFires 1 clock))
    \<and> \<not> loading (ui_step almost_done (IntervalFires 1 clock))"
    unfolding full_run_step [symmetric] by (simp add: full_run_eq)
  from progress_bounded_monotone [OF almost_done_reachable, of "IntervalFires 1 clock" clock "498 / 5"]
  have "0 \<le> simProgress almost_done \<and> simProgress almost_done \<le> 100
    \<and> (loading almost_done \<longrightarrow>
         simProgress almost_done \<le> simProgress (ui_step almost_done (IntervalFires 1 clock)))
    \<and> increment (498 / 5) = (if (498 / 5 :: rat) < 40 then 4.5 else if (498 / 5 :: rat) < 85 then 1.2 else 0.5)"
    by blast
  with a b show ?thesis by simp
qed


section \<open>Downloads\<close>

text \<open>
  C10. For every succeeded task the rendered component reaches: the result payload is the
  blob built for the chosen file under some format; after the format is switched, a
  re-download saves that same blob under the name whose extension is the one of the newly
  selected format, and the payload stays as it is.
\<close>

theorem redownload_uses_current_format:
  assumes "w = run (initial_panel fmt cb) es" "\<not> loading w" "downloadReady w"
  shows "\<exists>fmt0 f ts.
      resultBlob w = Some (makeBlob fmt0 f ts) \<and> file' w = Some f
      \<and> ui_step w (if fmt' = Excel then ClickXLSX else ClickTEXT) = setFormat fmt' w
      \<and> downloads (ui_step (setFormat fmt' w) ClickReDownload)
          = downloads w @
            [(str_replace (name f) ''.pdf'' [] @ ''_v42.'' @ (if fmt' = Excel then ''xlsx'' else ''txt''),
              makeBlob fmt0 f ts)]
      \<and> resultBlob (ui_step (setFormat fmt' w) ClickReDownload) = resultBlob w"
proof -
  have "panel_inv w" unfolding assms(1) by (rule inv_reachable)
  with assms(2) have "settled w" by (auto simp: panel_inv_def running_def)
  with assms(3) obtain fmt0 f ts where
    rb: "resultBlob w = Some (makeBlob fmt0 f ts)" and fl: "file' w = Some f"
    unfolding settled_def by auto
  have sw: "ui_step w (if fmt' = Excel then ClickXLSX else ClickTEXT) = setFormat fmt' w"
    using assms(2) by (cases fmt') (simp_all add: ui_step_def)
  have re: "ui_step (setFormat fmt' w) ClickReDownload
      = (setFormat fmt' w)\<lparr>downloads := downloads w @
            [(downloadName fmt' (name f), makeBlob fmt0 f ts)]\<rparr>"
    using assms(2,3) rb fl by (simp add: ui_step_def setFormat_def triggerDownload_def)
  have dl: "downloads (ui_step (setFormat fmt' w) ClickReDownload)
          = downloads w @
            [(str_replace (name f) ''.pdf'' [] @ ''_v42.'' @ (if fmt' = Excel then ''xlsx'' else ''txt''),
              makeBlob fmt0 f ts)]"
    unfolding re by (simp add: downloadName_def extension_def)
  have same: "resultBlob (ui_step (setFormat fmt' w) ClickReDownload) = resultBlob w"
    unfolding re by (simp add: setFormat_def)
  from rb fl sw dl same show ?thesis by blast
qed

theorem redownload_uses_current_format_witness:
  "\<not> loading full_run \<and> downloadReady full_run \<and> format full_run = Excel
   \<and> downloads full_run = [(''report_v42.xlsx'', makeBlob Excel report_pdf clock)]
   \<and> downloads (ui_step (ui_step full_run ClickTEXT) ClickReDownload)
       = [(''report_v42.xlsx'', makeBlob Excel report_pdf clock),
          (''report_v42.txt'', makeBlob Excel report_pdf clock)]
   \<and> resultBlob (ui_step (ui_step full_run ClickTEXT) ClickReDownload)
       = Some (makeBlob Excel report_pdf clock)
   \<and> blob_type (makeBlob Excel report_pdf clock) = xlsx_mime"
proof -
  have a: "\<not> loading full_run" and b: "downloadReady full_run"
    and c: "format full_run = Excel"
    and d: "downloads full_run = [(''report_v42.xlsx'', makeBlob Excel report_pdf clock)]"
    and rb: "resultBlob full_run = Some (makeBlob Excel report_pdf clock)"
    and fl: "file' full_run = Some report_pdf"
    by (simp_all add: full_run_eq)
  from redownload_uses_current_format [OF full_run_reachable a b, of Word]
  obtain fmt0 f ts where
    rb': "resultBlob full_run = Some (makeBlob fmt0 f ts)" and fl': "file' full_run = Some f"
    and sw: "ui_step full_run ClickTEXT = setFormat Word full_run"
    and dl: "downloads (ui_step (setFormat Word full_run) ClickReDownload)
          = downloads full_run @ [(str_replace (name f) ''.pdf'' [] @ ''_v42.'' @ ''txt'', makeBlob fmt0 f ts)]"
    and same: "resultBlob (ui_step (setFormat Word full_run) ClickReDownload) = resultBlob full_run"
    by auto
  from fl fl' have f: "f = report_pdf" by simp
  from rb rb' f have blob: "makeBlob fmt0 report_pdf ts = makeBlob Excel report_pdf clock"
    by simp
  have nm: "str_replace (name report_pdf) ''.pdf'' [] @ ''_v42.'' @ ''txt'' = ''report_v42.txt''"
    by (simp add: report_pdf_def)
  have ty: "blob_type (makeBlob Excel report_pdf clock) = xlsx_mime"
    by (simp add: makeBlob_def Let_def)
  from dl same show ?thesis
    unfolding sw f nm blob using a b c d rb ty by simp
qed


section \<open>The result payload\<close>

text \<open>
  C7. Two files with the same name give the same blob under the same format and
  timestamp, whatever their bytes, and finishing the conversion with either leaves the
  same state. In every ready state the rendered component reaches, the stored payload is
  the blob that any file with the chosen file's name gives, under one format and timestamp.
\<close>

theorem payload_ignores_content:
  "(name f1 = name f2 \<longrightarrow>
      makeBlob fmt f1 ts = makeBlob fmt f2 ts
      \<and> finishConversion fmt f1 ts w = finishConversion fmt f2 ts w)
   \<and> (v = run (initial_panel fmt0 cb) es \<and> downloadReady v \<longrightarrow>
        (\<exists>fmt1 f t. file' v = Some f \<and>
           (\<forall>g. name g = name f \<longrightarrow> resultBlob v = Some (makeBlob fmt1 g t))))"
proof -
  have same: "makeBlob fmt f1 ts = makeBlob fmt f2 ts" if "name f1 = name f2" for fmt f1 f2 ts
    using that by (simp add: makeBlob_def Let_def)
  have fin: "finishConversion fmt f1 ts w = finishConversion fmt f2 ts w" if "name f1 = name f2"
    using that by (simp add: makeBlob_def finishConversion_def Let_def)
  have stored: "\<exists>fmt1 f t. file' v = Some f \<and>
           (\<forall>g. name g = name f \<longrightarrow> resultBlob v = Some (makeBlob fmt1 g t))"
    if r: "v = run (initial_panel fmt0 cb) es" and d: "downloadReady v"
  proof -
    have "panel_inv v" unfolding r by (rule inv_reachable)
    with d have "settled v" by (auto simp: panel_inv_def running_def)
    with d obtain fmt1 f t where
      rb: "resultBlob v = Some (makeBlob fmt1 f t)" and fl: "file' v = Some f"
      unfolding settled_def by auto
    have "resultBlob v = Some (makeBlob fmt1 g t)" if "name g = name f" for g
      using rb same [OF that, of fmt1 t] by simp
    with fl show ?thesis by blast
  qed
  from same fin stored show ?thesis by blast
qed

theorem payload_ignores_content_witness:
  "name report_pdf = name other_pdf \<and> content report_pdf \<noteq> content other_pdf
   \<and> makeBlob Word report_pdf clock = makeBlob Word other_pdf clock
   \<and> makeBlob Excel report_pdf clock = makeBlob Excel other_pdf clock
   \<and> resultBlob (finishConversion Word report_pdf clock almost_done)
       = resultBlob (finishConversion Word other_pdf clock almost_done)
   \<and> downloadReady full_run \<and> file' full_run = Some report_pdf
   \<and> (\<exists>fmt1 t. resultBlob full_run = Some (makeBlob fmt1 other_pdf t))
   \<and> resultBlob full_run = Some (makeBlob Excel other_pdf clock)"
proof -
  have a: "name report_pdf = name other_pdf" by (simp add: report_pdf_def other_pdf_def)
  have b: "content report_pdf \<noteq> content other_pdf" by (simp add: report_pdf_def other_pdf_def)
  have d: "downloadReady full_run" and fl: "file' full_run = Some report_pdf"
    and rb: "resultBlob full_run = Some (makeBlob Excel report_pdf clock)"
    by (simp_all add: full_run_eq)
  note T = payload_ignores_content [of report_pdf other_pdf _ clock almost_done full_run Excel True
      "FileInputChange [report_pdf] # replicate 75 (IntervalFires 1 clock)"]
  from T [of Word] a have w: "makeBlob Word report_pdf clock = makeBlob Word other_pdf clock
      \<and> finishConversion Word report_pdf clock almost_done
        = finishConversion Word other_pdf clock almost_done" by blast
  from T [of Excel] a have x: "makeBlob Excel report_pdf clock = makeBlob Excel other_pdf clock"
    by blast
  from w have r: "resultBlob (finishConversion Word report_pdf clock almost_done)
       = resultBlob (finishConversion Word other_pdf clock almost_done)" by simp
  from T [of Excel] full_run_reachable d obtain fmt1 f t where
    "file' full_run = Some f"
    "\<forall>g. name g = name f \<longrightarrow> resultBlob full_run = Some (makeBlob fmt1 g t)"
    by blast
  with fl a have "resultBlob full_run = Some (makeBlob fmt1 other_pdf t)" by simp
  then have e: "\<exists>fmt1 t. resultBlob full_run = Some (makeBlob fmt1 other_pdf t)" by blast
  from a b w x r d fl rb e show ?thesis by simp
qed

lemma fallback_words_eq:
  "fallback_words = [''System'', ''status:'', ''Cloud'', ''engine'', ''offline.'', ''Local'',
     ''word'', ''extraction'', ''active.'']"
  by (simp add: fallback_words_def fallback_message_def split_ws_def is_space_def)

text \<open>
  C9. Under the excel format the blob is one workbook with the single sheet Word Grid,
  whose one row holds the nine words of the fallback sentence, each column as wide as its
  word is long plus 2.
\<close>

theorem excel_payload_single_row:
  "makeBlob Excel f ts =
     \<lparr>parts = [XlsxArray \<lparr>sheets = [(''Word Grid'',
          \<lparr>cells = [fallback_words], cols = Some (map (\<lambda>word. length word + 2) fallback_words)\<rparr>)]\<rparr>],
      blob_type = xlsx_mime\<rparr>
   \<and> fallback_words = [''System'', ''status:'', ''Cloud'', ''engine'', ''offline.'', ''Local'',
        ''word'', ''extraction'', ''active.'']
   \<and> map (\<lambda>word. length word + 2) fallback_words = [8, 9, 7, 8, 10, 7, 6, 12, 9]"
proof -
  have a: "makeBlob Excel f ts =
     \<lparr>parts = [XlsxArray \<lparr>sheets = [(''Word Grid'',
          \<lparr>cells = [fallback_words], cols = Some (map (\<lambda>word. length word + 2) fallback_words)\<rparr>)]\<rparr>],
      blob_type = xlsx_mime\<rparr>"
    by (simp add: makeBlob_def Let_def aoa_to_sheet_def book_new_def book_append_sheet_def)
  have c: "map (\<lambda>word. length word + 2) fallback_words = [8, 9, 7, 8, 10, 7, 6, 12, 9]"
    unfolding fallback_words_eq by simp
  from a fallback_words_eq c show ?thesis by (intro conjI)
qed


section \<open>The download name\<close>

lemma pdf_no_prefix:
  assumes "\<not> sublist ''.pdf'' (c # pre)"
  shows "\<not> prefix ''.pdf'' (c # pre @ ''.pdf'' @ post)"
proof
  assume p: "prefix ''.pdf'' (c # pre @ ''.pdf'' @ post)"
  consider (0) "pre = []" | (1) a where "pre = [a]" | (2) a b where "pre = [a, b]"
    | (3) a b d rest where "pre = a # b # d # rest"
    by (cases pre rule: remdups_adj.cases; simp) (metis list.exhaust)
  then show False
  proof cases
    case 0
    with p show ?thesis by simp
  next
    case 1
    with p show ?thesis by simp
  next
    case 2
    with p show ?thesis by simp
  next
    case 3
    with p have "prefix ''.pdf'' (c # pre)" by simp
    then have "sublist ''.pdf'' (c # pre)" by (rule prefix_imp_sublist)
    with assms show ?thesis by simp
  qed
qed

lemma str_replace_first_tail:
  "\<not> sublist ''.pdf'' pre \<Longrightarrow> t = ''.pdf'' @ post \<Longrightarrow>
   str_replace (pre @ t) ''.pdf'' [] = pre @ post"
proof (induction pre)
  case Nil
  then show ?case by simp
next
  case (Cons c pre)
  from Cons.prems(1) have "\<not> prefix ''.pdf'' (c # pre @ ''.pdf'' @ post)"
    by (rule pdf_no_prefix)
  then have np: "\<not> prefix ''.pdf'' (c # pre @ t)" unfolding Cons.prems(2) .
  from Cons.prems(1) have "\<not> sublist ''.pdf'' pre" by (simp add: sublist_Cons_right)
  then have ih: "str_replace (pre @ t) ''.pdf'' [] = pre @ post"
    using Cons.prems(2) by (rule Cons.IH)
  show ?case by (simp only: append_Cons str_replace.simps np if_False ih)
qed

lemma str_replace_first_pdf:
  "\<not> sublist ''.pdf'' pre \<Longrightarrow> str_replace (pre @ ''.pdf'' @ post) ''.pdf'' [] = pre @ post"
  by (rule str_replace_first_tail) simp_all

lemma str_replace_absent:
  "\<not> sublist pat s \<Longrightarrow> pat \<noteq> [] \<Longrightarrow> str_replace s pat rep = s"
proof (induction s)
  case Nil
  then show ?case by simp
next
  case (Cons c cs)
  from Cons.prems have np: "\<not> prefix pat (c # cs)" and ns: "\<not> sublist pat cs"
    by (auto simp: sublist_Cons_right)
  from Cons.IH [OF ns Cons.prems(2)] have ih: "str_replace cs pat rep = cs" .
  have "str_replace (c # cs) pat rep = c # str_replace cs pat rep"
    by (simp only: str_replace.simps np if_False)
  with ih show ?case by simp
qed

text \<open>
  C5, at the name scan.pdf.final.pdf: \<open>replace\<close> removes the first \<open>.pdf\<close> of the name,
  not its suffix, so the download is named scan.final.pdf_v42.xlsx, where stripping the
  suffix gives scan.pdf.final_v42.xlsx.
\<close>

theorem downloadName_inner_pdf:
  "downloadName Excel ''scan.pdf.final.pdf'' = ''scan.final.pdf_v42.xlsx''
   \<and> spec_downloadName Excel ''scan.pdf.final.pdf'' = ''scan.pdf.final_v42.xlsx''
   \<and> downloadName Excel ''scan.pdf.final.pdf'' \<noteq> spec_downloadName Excel ''scan.pdf.final.pdf''"
  by (simp add: downloadName_def spec_downloadName_def strip_pdf_suffix_def extension_def
      suffix_def)

text \<open>
  What the code computes: the name without its first \<open>.pdf\<close>, then the tag and the
  extension. Where the only \<open>.pdf\<close> is the suffix, this is the name of the
  specification; a name without \<open>.pdf\<close> is kept whole.
\<close>

lemma downloadName_first_occurrence:
  "(\<not> sublist ''.pdf'' pre \<longrightarrow>
      downloadName fmt (pre @ ''.pdf'' @ post)
        = pre @ post @ ''_v42.'' @ (if fmt = Excel then ''xlsx'' else ''txt''))
   \<and> (\<not> sublist ''.pdf'' pre \<longrightarrow>
      downloadName fmt (pre @ ''.pdf'') = spec_downloadName fmt (pre @ ''.pdf''))
   \<and> (\<not> sublist ''.pdf'' nm \<longrightarrow>
      downloadName fmt nm = nm @ ''_v42.'' @ (if fmt = Excel then ''xlsx'' else ''txt''))
   \<and> downloadName Excel ''report.pdf'' = ''report_v42.xlsx''
   \<and> downloadName Word ''report.pdf'' = ''report_v42.txt''"
proof -
  have first: "downloadName fmt (pre @ ''.pdf'' @ post)
        = pre @ post @ ''_v42.'' @ (if fmt = Excel then ''xlsx'' else ''txt'')"
    if "\<not> sublist ''.pdf'' pre" for post
    using str_replace_first_pdf [OF that, of post] by (simp add: downloadName_def extension_def)
  have spec: "downloadName fmt (pre @ ''.pdf'') = spec_downloadName fmt (pre @ ''.pdf'')"
    if "\<not> sublist ''.pdf'' pre"
    using first [OF that, of "[]"]
    by (cases fmt) (simp_all add: spec_downloadName_def strip_pdf_suffix_def suffix_def)
  have absent: "downloadName fmt nm = nm @ ''_v42.'' @ (if fmt = Excel then ''xlsx'' else ''txt'')"
    if "\<not> sublist ''.pdf'' nm"
    using str_replace_absent [OF that, of "[]"] by (simp add: downloadName_def extension_def)
  have ex: "downloadName Excel ''report.pdf'' = ''report_v42.xlsx''"
    "downloadName Word ''report.pdf'' = ''report_v42.txt''"
    by (simp_all add: downloadName_def extension_def)
  from first spec absent ex show ?thesis by blast
qed

lemma downloadName_first_occurrence_examples:
  "\<not> sublist ''.pdf'' ''scan''
   \<and> downloadName Word ''scan.pdf.final.pdf'' = ''scan.final.pdf_v42.txt''
   \<and> downloadName Word ''scan.pdf'' = spec_downloadName Word ''scan.pdf''
   \<and> \<not> sublist ''.pdf'' ''REPORT.PDF''
   \<and> downloadName Excel ''REPORT.PDF'' = ''REPORT.PDF_v42.xlsx''"
proof -
  have a: "\<not> sublist ''.pdf'' ''scan''"
    unfolding str_includes_sublist [symmetric] by simp
  have b: "\<not> sublist ''.pdf'' ''REPORT.PDF''"
    unfolding str_includes_sublist [symmetric] by simp
  from downloadName_first_occurrence [of "''scan''" Word "''.final.pdf''" "''REPORT.PDF''"]
       downloadName_first_occurrence [of "''scan''" Excel "''.final.pdf''" "''REPORT.PDF''"] a b
  show ?thesis by simp
qed

end
